theory Spec2Isabelle
  imports Main "HOL-Library.Multiset" "HOL-Library.Word"
begin

section \<open>Keep client: probe order and replicated writes\<close>

text \<open>
  A shallow embedding of \<^verbatim>\<open>sdk/go/src/arvados.org/keepclient/support.go\<close>.
  Go strings are byte strings, so \<open>string\<close> (a list of 8-bit characters) and \<open>length\<close>
  model them and \<^verbatim>\<open>len\<close>. A Go run-time panic is the value \<open>Inl\<close> of a sum type.
  Go's \<^verbatim>\<open>int\<close> is the 64-bit two's complement integer of the usual platforms: a
  \<open>64 word\<close>, whose \<open>+\<close> and \<open>-\<close> wrap around and whose value is read by \<open>sint\<close>.
\<close>

subsection \<open>Go primitives used by the client\<close>

datatype panic = SliceOutOfRange | IndexOutOfRange | DivideByZero

type_synonym go_int = "64 word"

datatype go_error = InsufficientReplicasError | TransportError string | StatusError int

text \<open>\<^verbatim>\<open>s[lo:hi]\<close> and \<^verbatim>\<open>s[lo:]\<close> on a string: Go panics unless \<open>0 \<le> lo \<le> hi \<le> len(s)\<close>.\<close>

definition go_slice :: "string \<Rightarrow> int \<Rightarrow> int \<Rightarrow> panic + string" where
  "go_slice s lo hi =
     (if 0 \<le> lo \<and> lo \<le> hi \<and> hi \<le> int (length s)
      then Inr (take (nat hi - nat lo) (drop (nat lo) s))
      else Inl SliceOutOfRange)"

definition go_slice_from :: "string \<Rightarrow> int \<Rightarrow> panic + string" where
  "go_slice_from s lo = go_slice s lo (int (length s))"

text \<open>
  \<^verbatim>\<open>strconv.ParseUint(s, 16, 32)\<close> of the Go standard library. A byte is a digit
  \<open>0\<close>..\<open>9\<close> or a letter \<open>a\<close>..\<open>z\<close>, \<open>A\<close>..\<open>Z\<close> worth \<open>10\<close>..\<open>35\<close>; a
  byte that is neither, or whose value is not below the base, is a syntax error with value
  \<open>0\<close>, as is the empty string; a value above \<open>2^32 - 1\<close> is a range error with the
  largest 32-bit value. The second component tells whether an error was returned.
\<close>

datatype parse_error = ErrSyntax | ErrRange

definition digit_val :: "char \<Rightarrow> nat option" where
  "digit_val c =
     (let d = (of_char c :: nat) in
      if 48 \<le> d \<and> d \<le> 57 then Some (d - 48)
      else if 97 \<le> d \<and> d \<le> 122 then Some (d - 97 + 10)
      else if 65 \<le> d \<and> d \<le> 90 then Some (d - 65 + 10)
      else None)"

fun parse_digits :: "nat \<Rightarrow> string \<Rightarrow> nat \<times> parse_error option" where
  "parse_digits n [] = (n, None)"
| "parse_digits n (c # cs) =
     (case digit_val c of
        None \<Rightarrow> (0, Some ErrSyntax)
      | Some v \<Rightarrow>
          if 16 \<le> v then (0, Some ErrSyntax)
          else if 2 ^ 60 \<le> n then (2 ^ 32 - 1, Some ErrRange)
          else if 2 ^ 32 - 1 < n * 16 + v then (2 ^ 32 - 1, Some ErrRange)
          else parse_digits (n * 16 + v) cs)"

definition ParseUint_16_32 :: "string \<Rightarrow> nat \<times> parse_error option" where
  "ParseUint_16_32 s = (if s = [] then (0, Some ErrSyntax) else parse_digits 0 s)"

subsection \<open>The client\<close>

text \<open>
  The reply of one HTTP request: \<^verbatim>\<open>Client.Do\<close> fails, or answers with a status code and,
  when the header \<^verbatim>\<open>X-Keep-Replicas-Stored\<close> is present, non-empty and read by
  \<^verbatim>\<open>Sscanf("%d")\<close> into an \<^verbatim>\<open>int\<close>, the number it holds.
\<close>

datatype http_reply = DoFailed string | Response int "go_int option"

text \<open>
  The fields of \<^verbatim>\<open>KeepClient\<close> that \<^verbatim>\<open>support.go\<close> reads. \<open>Client\<close> is the HTTP
  transport: the reply to the \<^verbatim>\<open>PUT\<close> of the block at a URL, the same whenever that URL
  is asked.
\<close>

record KeepClient =
  ApiServer :: string
  ApiToken :: string
  Service_roots :: "string list"
  Want_replicas :: go_int
  Using_proxy :: bool
  External :: bool
  Client :: "string \<Rightarrow> http_reply"

subsection \<open>shuffledServiceRoots\<close>

text \<open>
  The state of the loop is the digits left in \<open>seed\<close>, the servers still in \<open>pool\<close> and
  the probe sequence \<open>pseq\<close> built so far. The refill at the head of the loop body, run when \<^verbatim>\<open>len(seed) < 8\<close>:
  \<^verbatim>\<open>if len(pseq) < len(hash)/4 { seed = hash[len(hash)-4:] }; seed += hash\<close>.
\<close>

definition refill :: "string \<Rightarrow> string list \<Rightarrow> string \<Rightarrow> panic + string" where
  "refill hash pseq seed =
     (if length pseq < length hash div 4
      then (case go_slice_from hash (int (length hash) - 4) of
              Inl p \<Rightarrow> Inl p
            | Inr tail4 \<Rightarrow> Inr (tail4 @ hash))
      else Inr (seed @ hash))"

text \<open>\<^verbatim>\<open>append(pool[:probe], pool[probe+1:]...)\<close>, for \<open>probe < len(pool)\<close>.\<close>

definition remove_at :: "nat \<Rightarrow> 'a list \<Rightarrow> 'a list" where
  "remove_at i xs = take i xs @ drop (i + 1) xs"

text \<open>
  One pass through the body of \<^verbatim>\<open>for len(pool) > 0\<close>. The error of \<^verbatim>\<open>ParseUint\<close> is
  dropped (\<^verbatim>\<open>probe, _ :=\<close>), so a group of 8 bytes that is not a number gives probe 0.
\<close>

definition shuffle_body ::
  "string \<Rightarrow> string \<times> string list \<times> string list \<Rightarrow> panic + string \<times> string list \<times> string list"
where
  "shuffle_body hash st =
     (case st of (seed, pool, pseq) \<Rightarrow>
        (case (if length seed < 8 then refill hash pseq seed else Inr seed) of
           Inl p \<Rightarrow> Inl p
         | Inr seed1 \<Rightarrow>
             (case go_slice seed1 0 8 of
                Inl p \<Rightarrow> Inl p
              | Inr digits \<Rightarrow>
                  if pool = [] then Inl DivideByZero
                  else
                    (let probe = fst (ParseUint_16_32 digits) mod length pool in
                     if probe < length pool
                     then (case go_slice_from seed1 8 of
                             Inl p \<Rightarrow> Inl p
                           | Inr seed2 \<Rightarrow>
                               Inr (seed2,
                                    remove_at probe pool,
                                    pseq @ [pool ! probe]))
                     else Inl IndexOutOfRange))))"

lemma length_remove_at: "i < length xs \<Longrightarrow> length (remove_at i xs) = length xs - 1"
  by (simp add: remove_at_def)

lemma mset_remove_at: "i < length xs \<Longrightarrow> add_mset (xs ! i) (mset (remove_at i xs)) = mset xs"
proof -
  assume i: "i < length xs"
  then have "xs = take i xs @ (xs ! i) # drop (Suc i) xs"
    by (simp add: id_take_nth_drop)
  then have "mset xs = mset (take i xs @ (xs ! i) # drop (Suc i) xs)"
    by simp
  then show ?thesis
    by (simp add: remove_at_def)
qed

lemma shuffle_body_Inr:
  assumes "shuffle_body hash (seed, pool, pseq) = Inr (seed', pool', pseq')" and "pool \<noteq> []"
  shows "\<exists>probe<length pool. pool' = remove_at probe pool \<and> pseq' = pseq @ [pool ! probe]"
proof -
  have lt: "n mod length pool < length pool" for n
    using assms(2) by simp
  from assms(1) show ?thesis
    unfolding shuffle_body_def Let_def
    by (auto split: sum.splits if_splits intro!: exI [where P = "\<lambda>p. p < length pool \<and> _ p"] lt)
qed

lemma shuffle_body_pool:
  assumes "shuffle_body hash (seed, pool, pseq) = Inr (seed', pool', pseq')" and "pool \<noteq> []"
  shows "length pool' < length pool"
proof -
  from shuffle_body_Inr [OF assms] obtain probe
    where "probe < length pool" and "pool' = remove_at probe pool"
    by blast
  then show ?thesis
    using assms(2) by (simp add: length_remove_at)
qed

function shuffle_loop ::
  "string \<Rightarrow> string \<Rightarrow> string list \<Rightarrow> string list \<Rightarrow> panic + string list"
where
  "shuffle_loop hash seed pool pseq =
     (if pool = [] then Inr pseq
      else (case shuffle_body hash (seed, pool, pseq) of
              Inl p \<Rightarrow> Inl p
            | Inr (seed', pool', pseq') \<Rightarrow> shuffle_loop hash seed' pool' pseq'))"
  by pat_completeness auto
termination
  by (relation "measure (\<lambda>(hash, seed, pool, pseq). length pool)")
     (auto dest: shuffle_body_pool)

declare shuffle_loop.simps [simp del]

lemma shuffle_loop_Nil [simp]: "shuffle_loop hash seed [] pseq = Inr pseq"
  by (simp add: shuffle_loop.simps)

lemma shuffle_loop_panic:
  "pool \<noteq> [] \<Longrightarrow> shuffle_body hash (seed, pool, pseq) = Inl p \<Longrightarrow>
   shuffle_loop hash seed pool pseq = Inl p"
  by (simp add: shuffle_loop.simps [of hash seed pool pseq])

lemma shuffle_loop_step:
  "pool \<noteq> [] \<Longrightarrow> shuffle_body hash (seed, pool, pseq) = Inr (seed', pool', pseq') \<Longrightarrow>
   shuffle_loop hash seed pool pseq = shuffle_loop hash seed' pool' pseq'"
  by (simp add: shuffle_loop.simps [of hash seed pool pseq])

lemma shuffle_loop_Cons:
  "shuffle_loop hash seed (x # xs) pseq =
     (case shuffle_body hash (seed, x # xs, pseq) of
        Inl p \<Rightarrow> Inl p
      | Inr (seed', pool', pseq') \<Rightarrow> shuffle_loop hash seed' pool' pseq')"
  by (simp add: shuffle_loop.simps [of hash seed "x # xs" pseq])

text \<open>
  The call starts the loop with the hash as seed, a copy of \<open>Service_roots\<close> as pool and
  an empty sequence.
\<close>

definition shuffledServiceRoots :: "'a KeepClient_scheme \<Rightarrow> string \<Rightarrow> panic + string list" where
  "shuffledServiceRoots this hash = shuffle_loop hash hash (Service_roots this) []"

text \<open>
  The state at the head of the loop after \<open>n\<close> passes (fewer when the pool runs out
  first): the states the loop goes through.
\<close>

fun shuffle_steps ::
  "nat \<Rightarrow> string \<Rightarrow> string \<times> string list \<times> string list \<Rightarrow> panic + string \<times> string list \<times> string list"
where
  "shuffle_steps 0 hash st = Inr st"
| "shuffle_steps (Suc n) hash st =
     (if fst (snd st) = [] then Inr st
      else (case shuffle_body hash st of
              Inl p \<Rightarrow> Inl p
            | Inr st' \<Rightarrow> shuffle_steps n hash st'))"

text \<open>
  The seed after the refill test, and the index it selects: the two values the body computes
  when no slice is out of range.
\<close>

definition next_seed :: "string \<Rightarrow> string list \<Rightarrow> string \<Rightarrow> string" where
  "next_seed hash pseq seed =
     (if length seed < 8
      then (if length pseq < length hash div 4 then drop (length hash - 4) hash @ hash
            else seed @ hash)
      else seed)"

definition probe_of :: "string \<Rightarrow> string list \<Rightarrow> nat" where
  "probe_of seed1 pool = fst (ParseUint_16_32 (take 8 seed1)) mod length pool"

subsection \<open>uploadToKeepServer\<close>

record uploadStatus =
  err :: "go_error option"
  url :: string
  statusCode :: int
  replicas_stored :: go_int

text \<open>
  The status one upload goroutine sends on the channel \<^verbatim>\<open>upload_status\<close>. A request
  that cannot be built or sent reports \<^verbatim>\<open>uploadStatus{err, url, 0, 0}\<close>. Otherwise
  \<^verbatim>\<open>rep\<close> starts as 1 and is overwritten by the number read from the header
  \<^verbatim>\<open>X-Keep-Replicas-Stored\<close>; the status carries the response code and \<^verbatim>\<open>rep\<close>,
  with no error exactly when the code is 200. The request headers, the body and its length do
  not enter the status, so the stream and \<^verbatim>\<open>expectedLength\<close> are left out.
\<close>

definition uploadToKeepServer :: "'a KeepClient_scheme \<Rightarrow> string \<Rightarrow> string \<Rightarrow> uploadStatus" where
  "uploadToKeepServer this host hash =
     (let u = host @ ''/'' @ hash in
      case Client this u of
        DoFailed e \<Rightarrow>
          \<lparr>err = Some (TransportError e), url = u, statusCode = 0, replicas_stored = 0\<rparr>
      | Response code xr \<Rightarrow>
          (let rep = (case xr of None \<Rightarrow> 1 | Some r \<Rightarrow> r) in
           if code = 200
           then \<lparr>err = None, url = u, statusCode = code, replicas_stored = rep\<rparr>
           else \<lparr>err = Some (StatusError code), url = u, statusCode = code,
                 replicas_stored = rep\<rparr>))"

subsection \<open>putReplicas\<close>

text \<open>
  What a call of \<^verbatim>\<open>putReplicas\<close> does in the end: it returns a replica count (the value
  of the \<^verbatim>\<open>int\<close> returned) and an error (\<open>None\<close> is \<^verbatim>\<open>nil\<close>), or it blocks for ever
  on the channel.
\<close>

datatype outcome = Returned int "go_error option" | Blocked

text \<open>
  The control points of the function: the test of \<^verbatim>\<open>for remaining_replicas > 0\<close>, the
  test of \<^verbatim>\<open>for active < remaining_replicas\<close>, the receive
  \<^verbatim>\<open>status := <-upload_status\<close>, the statement \<^verbatim>\<open>active -= 1\<close> that follows the
  update of \<open>remaining_replicas\<close>, and the end.
\<close>

datatype pc = AtOuter | AtInner | AtReceive | AtDecrement | Finished outcome

text \<open>
  The local variables \<open>next_server\<close>, \<open>active\<close> and \<open>remaining_replicas\<close>, and the
  goroutines: \<open>in_flight\<close> holds, in the order they were started, the statuses of the
  uploads that have been started and whose status has not been received yet. Which of them
  the next receive gets depends on the timing of the servers: \<open>schedule\<close> gives, for each
  receive in turn, the position (modulo the number in flight) of the upload whose status
  arrives first; when it runs out, the oldest upload comes first. Every schedule is a
  possible run, and every run has a schedule. \<open>received\<close> records the statuses read from
  the channel so far; the code does not keep it, and nothing in the run depends on it. Every
  upload sends one status, as each path of \<^verbatim>\<open>uploadToKeepServer\<close> does. What the uploads
  still in flight do once the call has returned is outside the model. \<open>next_server\<close> only
  grows while it is below \<^verbatim>\<open>len(sv)\<close>, so it cannot wrap and is a natural number.
\<close>

record put_state =
  pc :: pc
  next_server :: nat
  active :: go_int
  remaining_replicas :: go_int
  in_flight :: "uploadStatus list"
  received :: "uploadStatus list"
  schedule :: "nat list"

definition put_init :: "'a KeepClient_scheme \<Rightarrow> nat list \<Rightarrow> put_state" where
  "put_init this sched =
     \<lparr>pc = AtOuter, next_server = 0, active = 0, remaining_replicas = Want_replicas this,
      in_flight = [], received = [], schedule = sched\<rparr>"

text \<open>
  The receive and the test after it: a status with code 200 lowers \<open>remaining_replicas\<close>
  by the replicas it reports, in 64-bit arithmetic. \<open>active\<close> is lowered in the next step.
\<close>

definition receive_status :: "put_state \<Rightarrow> put_state" where
  "receive_status c =
     (let i = (case schedule c of [] \<Rightarrow> 0 | k # _ \<Rightarrow> k) mod length (in_flight c);
          status = in_flight c ! i
      in c\<lparr>pc := AtDecrement,
            in_flight := remove_at i (in_flight c),
            received := received c @ [status],
            schedule := tl (schedule c),
            remaining_replicas :=
              (if statusCode status = 200
               then remaining_replicas c - replicas_stored status
               else remaining_replicas c)\<rparr>)"

text \<open>
  One step of \<^verbatim>\<open>putReplicas\<close> from a control point to the next. The comparisons are
  those of signed integers.
\<close>

definition put_step ::
  "'a KeepClient_scheme \<Rightarrow> string list \<Rightarrow> string \<Rightarrow> put_state \<Rightarrow> put_state"
where
  "put_step this sv hash c =
     (case pc c of
        AtOuter \<Rightarrow>
          if 0 < sint (remaining_replicas c) then c\<lparr>pc := AtInner\<rparr>
          else c\<lparr>pc := Finished (Returned (sint (Want_replicas this)) None)\<rparr>
      | AtInner \<Rightarrow>
          if sint (active c) < sint (remaining_replicas c) then
            (if next_server c < length sv
             then c\<lparr>in_flight := in_flight c @ [uploadToKeepServer this (sv ! next_server c) hash],
                    next_server := next_server c + 1,
                    active := active c + 1\<rparr>
             else if active c = 0
             then c\<lparr>pc := Finished
                          (Returned (sint (Want_replicas this - remaining_replicas c))
                             (Some InsufficientReplicasError))\<rparr>
             else c\<lparr>pc := AtReceive\<rparr>)
          else c\<lparr>pc := AtReceive\<rparr>
      | AtReceive \<Rightarrow>
          if in_flight c = [] then c\<lparr>pc := Finished Blocked\<rparr>
          else receive_status c
      | AtDecrement \<Rightarrow> c\<lparr>active := active c - 1, pc := AtOuter\<rparr>
      | Finished r \<Rightarrow> c)"

fun pc_rank :: "pc \<Rightarrow> nat" where
  "pc_rank AtDecrement = 4"
| "pc_rank AtOuter = 3"
| "pc_rank AtInner = 2"
| "pc_rank AtReceive = 1"
| "pc_rank (Finished r) = 0"

definition put_measure :: "string list \<Rightarrow> put_state \<Rightarrow> nat" where
  "put_measure sv c =
     5 * (2 * (length sv - next_server c) + length (in_flight c)) + pc_rank (pc c)"

lemma receive_status_shape:
  assumes "in_flight c \<noteq> []"
  shows "length (in_flight (receive_status c)) = length (in_flight c) - 1"
    and "next_server (receive_status c) = next_server c"
    and "pc (receive_status c) = AtDecrement"
proof -
  have "n mod length (in_flight c) < length (in_flight c)" for n
    using assms by simp
  then show "length (in_flight (receive_status c)) = length (in_flight c) - 1"
    by (simp add: receive_status_def Let_def length_remove_at)
  show "next_server (receive_status c) = next_server c"
    and "pc (receive_status c) = AtDecrement"
    by (simp_all add: receive_status_def Let_def)
qed

lemma put_step_measure:
  assumes "pc_rank (pc c) \<noteq> 0"
  shows "put_measure sv (put_step this sv hash c) < put_measure sv c"
proof (cases "pc c")
  case AtOuter
  then show ?thesis by (simp add: put_step_def put_measure_def)
next
  case AtInner
  then show ?thesis by (auto simp: put_step_def put_measure_def)
next
  case AtReceive
  show ?thesis
  proof (cases "in_flight c = []")
    case True
    with AtReceive show ?thesis by (simp add: put_step_def put_measure_def)
  next
    case False
    then obtain n where "length (in_flight c) = Suc n"
      by (cases "in_flight c") auto
    with AtReceive False receive_status_shape [OF False] show ?thesis
      by (simp add: put_step_def put_measure_def)
  qed
next
  case AtDecrement
  then show ?thesis by (simp add: put_step_def put_measure_def)
next
  case (Finished r)
  with assms show ?thesis by simp
qed

function put_run ::
  "'a KeepClient_scheme \<Rightarrow> string list \<Rightarrow> string \<Rightarrow> put_state \<Rightarrow> put_state"
where
  "put_run this sv hash c =
     (if pc_rank (pc c) = 0 then c else put_run this sv hash (put_step this sv hash c))"
  by pat_completeness auto
termination
  by (relation "measure (\<lambda>(this, sv, hash, c). put_measure sv c)")
     (auto intro: put_step_measure)

declare put_run.simps [simp del]

lemma put_run_done: "pc_rank (pc c) = 0 \<Longrightarrow> put_run this sv hash c = c"
  by (simp add: put_run.simps [of this sv hash c])

lemma put_run_step:
  "pc_rank (pc c) \<noteq> 0 \<Longrightarrow> put_run this sv hash c = put_run this sv hash (put_step this sv hash c)"
  by (simp add: put_run.simps [of this sv hash c])

text \<open>The configuration after \<open>n\<close> steps: the configurations a run goes through.\<close>

fun put_steps ::
  "nat \<Rightarrow> 'a KeepClient_scheme \<Rightarrow> string list \<Rightarrow> string \<Rightarrow> put_state \<Rightarrow> put_state"
where
  "put_steps 0 this sv hash c = c"
| "put_steps (Suc n) this sv hash c = put_steps n this sv hash (put_step this sv hash c)"

text \<open>
  The final configuration of \<^verbatim>\<open>putReplicas\<close>, and what the call returns. A panic of
  \<open>shuffledServiceRoots\<close> ends the call. A run ends at \<open>Finished\<close> (lemma
  \<open>put_run_finished\<close>), so the last case of \<open>putReplicas\<close> is never taken.
\<close>

definition putReplicas_final ::
  "'a KeepClient_scheme \<Rightarrow> string \<Rightarrow> nat list \<Rightarrow> panic + put_state"
where
  "putReplicas_final this hash sched =
     (case shuffledServiceRoots this hash of
        Inl p \<Rightarrow> Inl p
      | Inr sv \<Rightarrow> Inr (put_run this sv hash (put_init this sched)))"

definition putReplicas :: "'a KeepClient_scheme \<Rightarrow> string \<Rightarrow> nat list \<Rightarrow> panic + outcome" where
  "putReplicas this hash sched =
     (case putReplicas_final this hash sched of
        Inl p \<Rightarrow> Inl p
      | Inr c \<Rightarrow> (case pc c of Finished r \<Rightarrow> Inr r | _ \<Rightarrow> Inr Blocked))"

text \<open>
  The replicas reported stored by the successful uploads among some statuses, as an integer.
\<close>

definition stored_sum :: "uploadStatus list \<Rightarrow> int" where
  "stored_sum sts = (\<Sum>s\<leftarrow>sts. if statusCode s = 200 then sint (replicas_stored s) else 0)"

text \<open>
  The last four digits of the hash, and the invariant of the seed for a hash whose length is a
  multiple of 8: the seed is what is left of the hash, or of the refill \<open>last4 hash @ hash\<close>,
  after a whole number of 8-digit probes.
\<close>

definition last4 :: "string \<Rightarrow> string" where
  "last4 hash = drop (length hash - 4) hash"

definition seed_inv :: "string \<Rightarrow> string \<Rightarrow> string list \<Rightarrow> bool" where
  "seed_inv hash seed pseq =
     ((\<exists>j. 8 * j \<le> length hash \<and> seed = drop (8 * j) hash \<and> length pseq = j) \<or>
      (\<exists>j. 8 * j \<le> length hash \<and> seed = drop (8 * j) (last4 hash @ hash)))"

text \<open>
  The invariant of \<^verbatim>\<open>putReplicas\<close>: \<open>next_server\<close> stays within \<open>sv\<close>; \<open>active\<close>
  counts the uploads in flight, and one more between the receive and \<^verbatim>\<open>active -= 1\<close>; the
  statuses received and in flight are those of the servers tried so far; the inner loop and
  the receive run with a positive deficit; the receive has an upload to wait for; and at the
  end the call has returned, either \<open>Want_replicas\<close> and no error with the deficit closed,
  or \<open>Want_replicas - remaining_replicas\<close> and \<open>InsufficientReplicasError\<close> with a
  deficit left, every server tried and nothing in flight.
\<close>

definition put_inv :: "'a KeepClient_scheme \<Rightarrow> string list \<Rightarrow> string \<Rightarrow> put_state \<Rightarrow> bool" where
  "put_inv this sv hash c =
     (next_server c \<le> length sv \<and>
      sint (active c) = int (length (in_flight c)) + (if pc c = AtDecrement then 1 else 0) \<and>
      mset (received c) + mset (in_flight c)
        = mset (map (\<lambda>h. uploadToKeepServer this h hash) (take (next_server c) sv)) \<and>
      (pc c = AtInner \<or> pc c = AtReceive \<longrightarrow> 0 < sint (remaining_replicas c)) \<and>
      (pc c = AtReceive \<longrightarrow> in_flight c \<noteq> []) \<and>
      (\<forall>r. pc c = Finished r \<longrightarrow>
         r = Returned (sint (Want_replicas this)) None \<and> sint (remaining_replicas c) \<le> 0 \<or>
         r = Returned (sint (Want_replicas this - remaining_replicas c))
               (Some InsufficientReplicasError) \<and>
           0 < sint (remaining_replicas c) \<and> in_flight c = [] \<and> next_server c = length sv))"

text \<open>
  A healthy backend answers 200 and stores one replica; a failing one does not answer 200
  (or cannot be reached).
\<close>

definition healthy :: "uploadStatus \<Rightarrow> bool" where
  "healthy s = (statusCode s = 200 \<and> replicas_stored s = 1)"

definition failing :: "uploadStatus \<Rightarrow> bool" where
  "failing s = (statusCode s \<noteq> 200)"

definition example_client :: KeepClient where
  "example_client =
     \<lparr>ApiServer = ''api.example'', ApiToken = ''token'',
      Service_roots = [''http://keep0:25107'', ''http://keep1:25107'', ''http://keep2:25107''],
      Want_replicas = 2, Using_proxy = False, External = False,
      Client = (\<lambda>url. Response 200 None)\<rparr>"

text \<open>
  Three backends of which only \<open>keep0\<close> stores the block; a proxy that reports two
  replicas stored for each request; and backends that report the least \<^verbatim>\<open>int\<close>,
  \<open>-2^63\<close>, as the number of replicas stored.
\<close>

definition one_healthy :: KeepClient where
  "one_healthy =
     example_client\<lparr>Client := (\<lambda>u. if u = ''http://keep0:25107/37b51d194a7513e45b56f6524f2d51f2''
                                     then Response 200 None else Response 500 None)\<rparr>"

definition proxy_client :: KeepClient where
  "proxy_client =
     example_client\<lparr>Want_replicas := 3, Using_proxy := True,
                      Client := (\<lambda>u. Response 200 (Some 2))\<rparr>"

definition wrapping_client :: KeepClient where
  "wrapping_client =
     example_client\<lparr>Client := (\<lambda>u. Response 200 (Some (- 9223372036854775808)))\<rparr>"

section \<open>Volume lifecycle and block cache\<close>

subsection \<open>EmptyTrash\<close>










subsection \<open>BlockCache.ReadAt\<close>

text \<open>
  Modelled from the spec: the one kind of error \<open>ReadAt\<close> can return, a failure of the
  remote gateway with its message.
\<close>

datatype cache_error = RemoteError string

text \<open>
  Modelled from the spec: the disk cache is not among the sources (only its tests are). The
  cache holds a file per locator, or none, in front of a gateway that returns the block of a
  locator or fails.
\<close>

record DiskCache =
  files :: "string \<Rightarrow> string option"
  KeepGateway :: "string \<Rightarrow> string + string"

text \<open>
  Modelled from the spec: the attempt to read \<open>n\<close> bytes at \<open>offset\<close> from the local
  file. It fails when the file is absent, when it is too short for the range, and on a read
  error; \<open>io_fault\<close> tells whether this read meets one, from the disk or from another
  process truncating, replacing or deleting the file meanwhile.
\<close>

definition local_read :: "string option \<Rightarrow> bool \<Rightarrow> nat \<Rightarrow> nat \<Rightarrow> string option" where
  "local_read file io_fault n offset =
     (case file of
        None \<Rightarrow> None
      | Some bytes \<Rightarrow>
          if io_fault \<or> length bytes < offset + n then None
          else Some (take n (drop offset bytes)))"

text \<open>
  Modelled from the spec: \<open>ReadAt\<close>. A local read that succeeds answers the call. After
  any local failure the block is fetched from the gateway; a failure of the gateway is
  returned, and a block fetched is written to the cache file and the range asked for is
  returned from it.
\<close>

definition ReadAt ::
  "DiskCache \<Rightarrow> bool \<Rightarrow> string \<Rightarrow> nat \<Rightarrow> nat \<Rightarrow> (cache_error + string) \<times> DiskCache"
where
  "ReadAt cache io_fault locator n offset =
     (case local_read (files cache locator) io_fault n offset of
        Some bytes \<Rightarrow> (Inr bytes, cache)
      | None \<Rightarrow>
          (case KeepGateway cache locator of
             Inl e \<Rightarrow> (Inl (RemoteError e), cache)
           | Inr block \<Rightarrow>
               (Inr (take n (drop offset block)),
                cache\<lparr>files := (files cache)(locator \<mapsto> block)\<rparr>)))"

definition mangled_cache :: DiskCache where
  "mangled_cache =
     \<lparr>files = (\<lambda>loc. if loc = ''acbd18db4cc2f85cedef654fccc4a4d8+3'' then Some ''f'' else None),
      KeepGateway = (\<lambda>loc. if loc = ''acbd18db4cc2f85cedef654fccc4a4d8+3'' then Inr ''foo''
                            else Inl ''block not found'')\<rparr>"

section \<open>Properties\<close>

subsection \<open>Properties of the probe order\<close>

lemma go_slice_take: "8 \<le> length s \<Longrightarrow> go_slice s 0 8 = Inr (take 8 s)"
  by (simp add: go_slice_def)

lemma go_slice_from_drop: "n \<le> length s \<Longrightarrow> go_slice_from s (int n) = Inr (drop n s)"
  by (simp add: go_slice_from_def go_slice_def)

lemma go_slice_from_last4:
  "4 \<le> length s \<Longrightarrow> go_slice_from s (int (length s) - 4) = Inr (drop (length s - 4) s)"
  using go_slice_from_drop [of "length s - 4" s] by (simp add: of_nat_diff)

lemma refill_ok:
  "4 \<le> length hash \<Longrightarrow>
   refill hash pseq seed =
     Inr (if length pseq < length hash div 4 then drop (length hash - 4) hash @ hash
          else seed @ hash)"
  by (simp add: refill_def go_slice_from_last4)

lemma shuffle_body_ok:
  assumes "8 \<le> length hash" and "pool \<noteq> []"
  shows "shuffle_body hash (seed, pool, pseq) =
           Inr (drop 8 (next_seed hash pseq seed),
                remove_at (probe_of (next_seed hash pseq seed) pool) pool,
                pseq @ [pool ! probe_of (next_seed hash pseq seed) pool])"
proof -
  let ?seed1 = "next_seed hash pseq seed"
  have r: "(if length seed < 8 then refill hash pseq seed else Inr seed) = Inr ?seed1"
    using assms(1) by (simp add: next_seed_def refill_ok)
  have len: "8 \<le> length ?seed1"
    using assms(1) by (simp add: next_seed_def)
  have lt: "n mod length pool < length pool" for n
    using assms(2) by simp
  show ?thesis
    unfolding shuffle_body_def Let_def probe_of_def
    using len lt assms(2) go_slice_from_drop [of 8 ?seed1]
    by (simp add: r go_slice_take)
qed

lemma probe_of_less: "pool \<noteq> [] \<Longrightarrow> probe_of seed1 pool < length pool"
  by (simp add: probe_of_def)

lemma shuffle_loop_perm:
  assumes "8 \<le> length hash"
  shows "\<exists>r. shuffle_loop hash seed pool pseq = Inr r \<and> mset r = mset pseq + mset pool"
  using assms
proof (induction hash seed pool pseq rule: shuffle_loop.induct)
  case (1 hash seed pool pseq)
  show ?case
  proof (cases "pool = []")
    case True
    then show ?thesis by simp
  next
    case False
    define probe where "probe = probe_of (next_seed hash pseq seed) pool"
    have p: "probe < length pool"
      using False by (simp add: probe_def probe_of_less)
    have b: "shuffle_body hash (seed, pool, pseq) =
               Inr (drop 8 (next_seed hash pseq seed), remove_at probe pool, pseq @ [pool ! probe])"
      using shuffle_body_ok [OF "1.prems" False] by (simp add: probe_def)
    from "1.IH" [OF False b refl refl "1.prems"] obtain r
      where r: "shuffle_loop hash (drop 8 (next_seed hash pseq seed)) (remove_at probe pool)
                  (pseq @ [pool ! probe]) = Inr r"
        and m: "mset r = mset (pseq @ [pool ! probe]) + mset (remove_at probe pool)"
      by blast
    have "shuffle_loop hash seed pool pseq = Inr r"
      using shuffle_loop_step [OF False b] r by simp
    moreover have "mset r = mset pseq + mset pool"
      using m mset_remove_at [OF p] by simp
    ultimately show ?thesis by blast
  qed
qed

lemmas shuffle_eval =
  shuffle_loop_Cons shuffledServiceRoots_def shuffle_body_def refill_def go_slice_def go_slice_from_def
  ParseUint_16_32_def digit_val_def remove_at_def Let_def
  numeral_2_eq_2 [symmetric] numeral_3_eq_3 [symmetric]

lemma shuffle_steps_unfold:
  "0 < n \<Longrightarrow>
   shuffle_steps n hash st =
     (if fst (snd st) = [] then Inr st
      else (case shuffle_body hash st of
              Inl p \<Rightarrow> Inl p
            | Inr st' \<Rightarrow> shuffle_steps (n - 1) hash st'))"
  by (cases n) (auto split: sum.splits)

lemma shuffle_loop_steps:
  "length pool \<le> n \<Longrightarrow>
   shuffle_loop hash seed pool pseq =
     (case shuffle_steps n hash (seed, pool, pseq) of
        Inl p \<Rightarrow> Inl p
      | Inr st \<Rightarrow> Inr (snd (snd st)))"
proof (induction n arbitrary: seed pool pseq)
  case 0
  then show ?case by simp
next
  case (Suc n)
  show ?case
  proof (cases "pool = []")
    case True
    then show ?thesis by simp
  next
    case False
    show ?thesis
    proof (cases "shuffle_body hash (seed, pool, pseq)")
      case (Inl p)
      with False shuffle_loop_panic [OF False Inl] show ?thesis by simp
    next
      case (Inr st')
      obtain seed' pool' pseq' where st': "st' = (seed', pool', pseq')"
        by (cases st') auto
      from shuffle_body_pool [OF Inr [unfolded st'] False] Suc.prems
      have "length pool' \<le> n" by simp
      from Suc.IH [OF this] False Inr st' shuffle_loop_step [OF False Inr [unfolded st']]
      show ?thesis by simp
    qed
  qed
qed

lemma length_last4: "4 \<le> length hash \<Longrightarrow> length (last4 hash) = 4"
  by (simp add: last4_def)

lemma seed_inv_refill:
  assumes L: "8 \<le> length hash" and d: "8 dvd length hash"
    and inv: "seed_inv hash seed pseq" and short: "length seed < 8"
  shows "next_seed hash pseq seed = last4 hash @ hash"
proof -
  from d obtain k where k: "length hash = 8 * k" by (auto simp: dvd_def)
  from inv consider
      (A) j where "8 * j \<le> length hash" "seed = drop (8 * j) hash" "length pseq = j"
    | (B) j where "8 * j \<le> length hash" "seed = drop (8 * j) (last4 hash @ hash)"
    by (auto simp: seed_inv_def)
  then show ?thesis
  proof cases
    case A
    with short k have "j = k" by simp
    with A k L have "length pseq < length hash div 4" by simp
    with short show ?thesis by (simp add: next_seed_def last4_def)
  next
    case B
    have "length seed = length (last4 hash @ hash) - 8 * j"
      unfolding B(2) by (rule length_drop)
    then have "length seed = length hash + 4 - 8 * j"
      using L by (simp add: length_last4)
    with short k B(1) have jk: "j = k" by arith
    have "drop (length hash) (last4 hash @ hash) = last4 hash"
      using L by (simp add: length_last4 last4_def)
    with B jk k have "seed = last4 hash" by simp
    with short show ?thesis by (simp add: next_seed_def last4_def)
  qed
qed

lemma seed_inv_step:
  assumes L: "8 \<le> length hash" and d: "8 dvd length hash"
    and inv: "seed_inv hash seed pseq"
  shows "seed_inv hash (drop 8 (next_seed hash pseq seed)) (pseq @ [x])"
proof (cases "length seed < 8")
  case True
  from seed_inv_refill [OF L d inv True]
  have "drop 8 (next_seed hash pseq seed) = drop (8 * 1) (last4 hash @ hash)" by simp
  with L show ?thesis unfolding seed_inv_def by (intro disjI2 exI [of _ 1]) simp
next
  case False
  then have ns: "next_seed hash pseq seed = seed" by (simp add: next_seed_def)
  from d obtain k where k: "length hash = 8 * k" by (auto simp: dvd_def)
  from inv consider
      (A) j where "8 * j \<le> length hash" "seed = drop (8 * j) hash" "length pseq = j"
    | (B) j where "8 * j \<le> length hash" "seed = drop (8 * j) (last4 hash @ hash)"
    by (auto simp: seed_inv_def)
  then show ?thesis
  proof cases
    case A
    with False have "8 * Suc j \<le> length hash" by simp
    moreover have "drop 8 seed = drop (8 * Suc j) hash" using A by (simp add: add.commute)
    ultimately show ?thesis
      using A unfolding seed_inv_def ns by (intro disjI1 exI [of _ "Suc j"]) simp
  next
    case B
    have "length seed = length (last4 hash @ hash) - 8 * j"
      unfolding B(2) by (rule length_drop)
    then have "length seed = length hash + 4 - 8 * j"
      using L by (simp add: length_last4)
    with False k have "8 * Suc j \<le> length hash" by arith
    moreover have "drop 8 seed = drop (8 * Suc j) (last4 hash @ hash)"
      unfolding B(2) by (simp only: drop_drop mult_Suc_right)
    ultimately show ?thesis
      unfolding seed_inv_def ns by (intro disjI2 exI [of _ "Suc j"]) simp
  qed
qed

lemma seed_inv_steps:
  assumes L: "8 \<le> length hash" and d: "8 dvd length hash"
  shows "shuffle_steps n hash (seed, pool, pseq) = Inr (seed', pool', pseq') \<Longrightarrow>
         seed_inv hash seed pseq \<Longrightarrow> seed_inv hash seed' pseq'"
proof (induction n arbitrary: seed pool pseq)
  case 0
  then show ?case by simp
next
  case (Suc n)
  show ?case
  proof (cases "pool = []")
    case True
    with Suc.prems show ?thesis by simp
  next
    case False
    let ?s = "drop 8 (next_seed hash pseq seed)"
    let ?p = "probe_of (next_seed hash pseq seed) pool"
    from Suc.prems(1) False shuffle_body_ok [OF L False, of seed pseq]
    have "shuffle_steps n hash (?s, remove_at ?p pool, pseq @ [pool ! ?p]) = Inr (seed', pool', pseq')"
      by simp
    from Suc.IH [OF this seed_inv_step [OF L d Suc.prems(2)]] show ?thesis .
  qed
qed

text \<open>
  C1. The probe sequence is a function of the hash and of \<open>Service_roots\<close> alone: two
  clients that agree on \<open>Service_roots\<close> and differ anywhere else (token, replica count,
  proxy flag, HTTP transport) compute the same sequence for the same hash, so computing it
  again gives it again. The loop works on a copy of \<open>Service_roots\<close>
  (\<^verbatim>\<open>copy(pool, this.Service_roots)\<close>), so a call leaves the client as it was.
\<close>

theorem probe_order_depends_only_on_hash_and_roots:
  fixes a :: "'a KeepClient_scheme" and b :: "'b KeepClient_scheme"
  assumes "Service_roots a = Service_roots b"
  shows "shuffledServiceRoots a hash = shuffledServiceRoots b hash"
  using assms by (simp add: shuffledServiceRoots_def)

theorem probe_order_depends_only_witness:
  "Service_roots (example_client\<lparr>ApiToken := ''other'', Want_replicas := 5, Using_proxy := True\<rparr>)
     = Service_roots example_client \<and>
   shuffledServiceRoots
     (example_client\<lparr>ApiToken := ''other'', Want_replicas := 5, Using_proxy := True\<rparr>)
     ''37b51d194a7513e45b56f6524f2d51f2''
     = shuffledServiceRoots example_client ''37b51d194a7513e45b56f6524f2d51f2''"
  using probe_order_depends_only_on_hash_and_roots
    [of "example_client\<lparr>ApiToken := ''other'', Want_replicas := 5, Using_proxy := True\<rparr>"
        example_client "''37b51d194a7513e45b56f6524f2d51f2''"]
  by simp

text \<open>
  C2. For a hash of at least 8 bytes (hex digits or not: a group of 8 bytes that is not a
  hex number selects index 0) the call returns a sequence as long as \<open>Service_roots\<close> that
  holds every entry of \<open>Service_roots\<close> as often as the list does: a permutation.
\<close>

theorem shuffledServiceRoots_permutation:
  assumes "8 \<le> length hash"
  shows "\<exists>pseq. shuffledServiceRoots this hash = Inr pseq \<and>
           length pseq = length (Service_roots this) \<and>
           mset pseq = mset (Service_roots this)"
proof -
  from shuffle_loop_perm [OF assms, of hash "Service_roots this" "[]"] obtain r
    where r: "shuffle_loop hash hash (Service_roots this) [] = Inr r"
      and m: "mset r = mset (Service_roots this)"
    by auto
  from m have "length r = length (Service_roots this)"
    by (rule mset_eq_length)
  with r m show ?thesis
    by (simp add: shuffledServiceRoots_def)
qed

theorem shuffledServiceRoots_permutation_witness:
  "8 \<le> length ''37b51d194a7513e45b56f6524f2d51f2'' \<and>
   shuffledServiceRoots example_client ''37b51d194a7513e45b56f6524f2d51f2''
     = Inr [''http://keep2:25107'', ''http://keep0:25107'', ''http://keep1:25107''] \<and>
   mset [''http://keep2:25107'', ''http://keep0:25107'', ''http://keep1:25107'']
     = mset (Service_roots example_client)"
  using shuffledServiceRoots_permutation [of "''37b51d194a7513e45b56f6524f2d51f2''" example_client]
  by (simp add: shuffle_eval example_client_def)

text \<open>
  C3, as amended. When the seed has fewer than 8 digits left and the pool is not empty, the
  refill depends on how many servers have been chosen: while fewer than \<open>len(hash)/4\<close>
  have, the seed becomes the last 4 digits of the hash followed by the hash; afterwards the
  digits left in the seed are kept and the hash is appended to them. For a hash whose length
  is a multiple of 8 (the 32 digits of an MD5 digest) the two agree, and every refill is the
  last 4 digits of the hash followed by the hash. The pass of the loop goes on with the
  refilled seed, of which it uses the first 8 digits.
\<close>

theorem refill_rule:
  assumes "shuffle_steps n hash (hash, Service_roots this, []) = Inr (seed, pool, pseq)"
    and "pool \<noteq> []" and "length seed < 8" and "8 \<le> length hash"
  shows "refill hash pseq seed =
           Inr (if length pseq < length hash div 4 then last4 hash @ hash else seed @ hash) \<and>
         (8 dvd length hash \<longrightarrow> refill hash pseq seed = Inr (last4 hash @ hash)) \<and>
         (\<exists>pool' pseq'.
            shuffle_body hash (seed, pool, pseq) =
              Inr (drop 8 (if length pseq < length hash div 4 then last4 hash @ hash
                           else seed @ hash),
                   pool', pseq'))"
proof -
  have r: "refill hash pseq seed = Inr (next_seed hash pseq seed)"
    using assms(3,4) by (simp add: refill_ok next_seed_def)
  have b: "\<exists>pool' pseq'.
             shuffle_body hash (seed, pool, pseq) =
               Inr (drop 8 (if length pseq < length hash div 4 then last4 hash @ hash
                            else seed @ hash),
                    pool', pseq')"
    using shuffle_body_ok [OF assms(4,2), of seed pseq] assms(3)
    by (simp add: next_seed_def last4_def)
  have "seed_inv hash hash []"
    unfolding seed_inv_def by (intro disjI1 exI [of _ 0]) simp
  then have "8 dvd length hash \<Longrightarrow> seed_inv hash seed pseq"
    using seed_inv_steps [OF assms(4) _ assms(1)] by simp
  then have "8 dvd length hash \<Longrightarrow> next_seed hash pseq seed = last4 hash @ hash"
    using seed_inv_refill [OF assms(4) _ _ assms(3)] by simp
  with r assms(3) have
    "refill hash pseq seed =
       Inr (if length pseq < length hash div 4 then last4 hash @ hash else seed @ hash) \<and>
     (8 dvd length hash \<longrightarrow> refill hash pseq seed = Inr (last4 hash @ hash))"
    by (auto simp: next_seed_def last4_def)
  with b show ?thesis by blast
qed

theorem refill_rule_witness:
  "shuffle_steps 2 ''0123abcd''
     (''0123abcd'', Service_roots (example_client\<lparr>Service_roots := [''a'', ''b'', ''c'']\<rparr>), [])
     = Inr (''abcd'', [''a''], [''b'', ''c'']) \<and>
   refill ''0123abcd'' [''b'', ''c''] ''abcd'' = Inr ''abcd0123abcd''"
  using refill_rule [of 2 "''0123abcd''" "example_client\<lparr>Service_roots := [''a'', ''b'', ''c'']\<rparr>"
      "''abcd''" "[''a'']" "[''b'', ''c'']"]
  by (simp add: shuffle_steps_unfold shuffle_eval last4_def example_client_def)

text \<open>
  C3 as stated fails for a 10-digit hash and three servers: at the second refill 6 digits
  are left, and the new seed is those 6 digits followed by the hash, not 4 trailing digits
  (of the hash, or of the seed) followed by the hash.
\<close>

theorem refill_rule_counterexample:
  "shuffle_steps 2 ''0123456789'' (''0123456789'', [''a'', ''b'', ''c''], [])
     = Inr (''456789'', [''a''], [''b'', ''c'']) \<and>
   refill ''0123456789'' [''b'', ''c''] ''456789'' = Inr ''4567890123456789'' \<and>
   last4 ''0123456789'' @ ''0123456789'' = ''67890123456789'' \<and>
   last4 ''456789'' @ ''0123456789'' = ''67890123456789''"
  by (simp add: shuffle_steps_unfold shuffle_eval last4_def)

lemma short_hash_panics:
  assumes h: "length hash = 4" and n: "2 \<le> length pool"
  shows "shuffle_loop hash hash pool [] = Inl SliceOutOfRange"
proof -
  from n have ne: "pool \<noteq> []" by auto
  let ?p = "fst (ParseUint_16_32 (hash @ hash)) mod length pool"
  have p: "?p < length pool" using ne by simp
  have first: "shuffle_body hash (hash, pool, []) = Inr ([], remove_at ?p pool, [pool ! ?p])"
    using h ne p
    by (simp add: shuffle_body_def refill_def go_slice_from_def go_slice_def Let_def)
  have "length (remove_at ?p pool) = length pool - 1"
    using p by (rule length_remove_at)
  with n have ne': "remove_at ?p pool \<noteq> []" by auto
  have second: "shuffle_body hash ([], remove_at ?p pool, [pool ! ?p]) = Inl SliceOutOfRange"
    using h by (simp add: shuffle_body_def refill_def go_slice_def)
  show ?thesis
    using shuffle_loop_step [OF ne first] shuffle_loop_panic [OF ne' second] by simp
qed

text \<open>
  C9. For a hash of at least 8 bytes no slice is out of range and the call returns a
  sequence. A shorter hash can panic: with a hash of 4 digits and two servers or more, the
  second pass slices 8 bytes out of a 4-byte seed.
\<close>

theorem shuffledServiceRoots_total:
  "(8 \<le> length hash \<longrightarrow> (\<exists>pseq. shuffledServiceRoots this hash = Inr pseq)) \<and>
   (length hash = 4 \<and> 2 \<le> length (Service_roots this) \<longrightarrow>
      shuffledServiceRoots this hash = Inl SliceOutOfRange)"
proof
  show "8 \<le> length hash \<longrightarrow> (\<exists>pseq. shuffledServiceRoots this hash = Inr pseq)"
    using shuffle_loop_perm [of hash hash "Service_roots this" "[]"]
    by (auto simp: shuffledServiceRoots_def)
  show "length hash = 4 \<and> 2 \<le> length (Service_roots this) \<longrightarrow>
          shuffledServiceRoots this hash = Inl SliceOutOfRange"
    using short_hash_panics [of hash "Service_roots this"]
    by (simp add: shuffledServiceRoots_def)
qed

theorem shuffledServiceRoots_total_witness:
  "shuffledServiceRoots (example_client\<lparr>Service_roots := [''a'', ''b'', ''c'']\<rparr>) ''0123456789''
     = Inr [''b'', ''c'', ''a''] \<and>
   shuffledServiceRoots (example_client\<lparr>Service_roots := [''a'', ''b'']\<rparr>) ''abcd''
     = Inl SliceOutOfRange"
  using shuffledServiceRoots_total
    [of "''0123456789''" "example_client\<lparr>Service_roots := [''a'', ''b'', ''c'']\<rparr>"]
    shuffledServiceRoots_total
    [of "''abcd''" "example_client\<lparr>Service_roots := [''a'', ''b'']\<rparr>"]
  by (simp add: shuffle_eval example_client_def)

subsection \<open>Properties of replicated writes\<close>

lemmas put_eval =
  putReplicas_def putReplicas_final_def put_run_step put_run_done put_step_def
  receive_status_def uploadToKeepServer_def put_init_def stored_sum_def

lemma put_steps_unfold:
  "0 < n \<Longrightarrow>
   put_steps n this sv hash c = put_steps (n - 1) this sv hash (put_step this sv hash c)"
  by (cases n) simp_all

lemma sint_range:
  fixes a :: go_int
  shows "- (2 ^ 63) \<le> sint a" and "sint a < 2 ^ 63"
  using sint_ge [of a] sint_lt [of a] by simp_all

lemma sint_add_no_wrap:
  fixes a b :: go_int
  assumes "- (2 ^ 63) \<le> sint a + sint b" and "sint a + sint b < 2 ^ 63"
  shows "sint (a + b) = sint a + sint b"
  using assms by (simp add: sint_word_ariths signed_take_bit_int_eq_self)

lemma sint_sub_no_wrap:
  fixes a b :: go_int
  assumes "- (2 ^ 63) \<le> sint a - sint b" and "sint a - sint b < 2 ^ 63"
  shows "sint (a - b) = sint a - sint b"
  using assms by (simp add: sint_word_ariths signed_take_bit_int_eq_self)

lemma sint_succ:
  fixes a b :: go_int
  assumes "sint a < sint b"
  shows "sint (a + 1) = sint a + 1"
proof -
  have "sint a + sint (1 :: go_int) < 2 ^ 63" "- (2 ^ 63) \<le> sint a + sint (1 :: go_int)"
    using assms sint_range [of b] sint_range [of a] by simp_all
  from sint_add_no_wrap [OF this(2,1)] show ?thesis by simp
qed

lemma sint_pred:
  fixes a :: go_int
  assumes "0 < sint a"
  shows "sint (a - 1) = sint a - 1"
proof -
  have "sint a - sint (1 :: go_int) < 2 ^ 63" "- (2 ^ 63) \<le> sint a - sint (1 :: go_int)"
    using assms sint_range [of a] by simp_all
  from sint_sub_no_wrap [OF this(2,1)] show ?thesis by simp
qed

lemma stored_sum_append:
  "stored_sum (xs @ [s])
     = stored_sum xs + (if statusCode s = 200 then sint (replicas_stored s) else 0)"
  by (simp add: stored_sum_def)

lemma put_inv_init: "put_inv this sv hash (put_init this sched)"
  by (simp add: put_inv_def put_init_def)

lemma put_inv_receive:
  assumes inv: "put_inv this sv hash c" and pc: "pc c = AtReceive"
  shows "put_inv this sv hash (receive_status c)"
proof -
  from inv pc have ne: "in_flight c \<noteq> []" by (simp add: put_inv_def)
  define i where "i = (case schedule c of [] \<Rightarrow> 0 | k # _ \<Rightarrow> k) mod length (in_flight c)"
  have i: "i < length (in_flight c)" using ne by (simp add: i_def)
  have r: "receive_status c =
      c\<lparr>pc := AtDecrement, in_flight := remove_at i (in_flight c),
        received := received c @ [in_flight c ! i], schedule := tl (schedule c),
        remaining_replicas :=
          (if statusCode (in_flight c ! i) = 200
           then remaining_replicas c - replicas_stored (in_flight c ! i)
           else remaining_replicas c)\<rparr>"
    by (simp add: receive_status_def Let_def i_def)
  have m: "mset (received c @ [in_flight c ! i]) + mset (remove_at i (in_flight c))
             = mset (received c) + mset (in_flight c)"
    using mset_remove_at [OF i] by simp
  have l: "int (length (remove_at i (in_flight c))) + 1 = int (length (in_flight c))"
    using i by (simp add: length_remove_at of_nat_diff)
  from inv pc show ?thesis
    unfolding r put_inv_def using m l
    by simp
qed

lemma put_inv_step:
  assumes inv: "put_inv this sv hash c"
  shows "put_inv this sv hash (put_step this sv hash c)"
proof (cases "pc c")
  case AtOuter
  with inv show ?thesis by (auto simp: put_step_def put_inv_def)
next
  case AtInner
  show ?thesis
  proof (cases "sint (active c) < sint (remaining_replicas c)")
    case lt: True
    show ?thesis
    proof (cases "next_server c < length sv")
      case True
      then have "take (Suc (next_server c)) sv = take (next_server c) sv @ [sv ! next_server c]"
        by (simp add: take_Suc_conv_app_nth)
      with inv AtInner True lt sint_succ [OF lt] show ?thesis
        by (simp add: put_step_def put_inv_def)
    next
      case False
      with inv AtInner lt show ?thesis
        by (auto simp: put_step_def put_inv_def signed_eq_0_iff)
    qed
  next
    case False
    with inv AtInner show ?thesis
      by (auto simp: put_step_def put_inv_def)
  qed
next
  case AtReceive
  with inv have "in_flight c \<noteq> []" by (simp add: put_inv_def)
  with AtReceive have "put_step this sv hash c = receive_status c"
    by (simp add: put_step_def)
  with put_inv_receive [OF inv AtReceive] show ?thesis by simp
next
  case AtDecrement
  with inv have "0 < sint (active c)" by (simp add: put_inv_def)
  from sint_pred [OF this] inv AtDecrement show ?thesis
    by (simp add: put_step_def put_inv_def)
next
  case (Finished r)
  with inv show ?thesis by (simp add: put_step_def)
qed

lemma put_inv_run: "put_inv this sv hash c \<Longrightarrow> put_inv this sv hash (put_run this sv hash c)"
proof (induction this sv hash c rule: put_run.induct)
  case (1 this sv hash c)
  show ?case
  proof (cases "pc_rank (pc c) = 0")
    case True
    with "1.prems" show ?thesis by (simp add: put_run_done)
  next
    case False
    from "1.IH" [OF False put_inv_step [OF "1.prems"]] False show ?thesis
      by (simp add: put_run_step)
  qed
qed

lemma put_run_finished: "\<exists>r. pc (put_run this sv hash c) = Finished r"
proof (induction this sv hash c rule: put_run.induct)
  case (1 this sv hash c)
  show ?case
  proof (cases "pc_rank (pc c) = 0")
    case True
    then show ?thesis by (cases "pc c") (simp_all add: put_run_done)
  next
    case False
    with "1.IH" show ?thesis by (simp add: put_run_step)
  qed
qed

lemma put_inv_steps: "put_inv this sv hash c \<Longrightarrow> put_inv this sv hash (put_steps n this sv hash c)"
  by (induction n arbitrary: c) (simp_all add: put_inv_step)

lemma put_run_steps: "\<exists>n. put_run this sv hash c = put_steps n this sv hash c"
proof (induction this sv hash c rule: put_run.induct)
  case (1 this sv hash c)
  show ?case
  proof (cases "pc_rank (pc c) = 0")
    case True
    then have "put_run this sv hash c = put_steps 0 this sv hash c"
      by (simp add: put_run_done)
    then show ?thesis by blast
  next
    case False
    with "1.IH" obtain n
      where "put_run this sv hash (put_step this sv hash c)
               = put_steps n this sv hash (put_step this sv hash c)"
      by blast
    with False have "put_run this sv hash c = put_steps (Suc n) this sv hash c"
      by (simp add: put_run_step)
    then show ?thesis by blast
  qed
qed

lemma shuffle_loop_mset:
  "shuffle_loop hash seed pool pseq = Inr r \<Longrightarrow> mset r = mset pseq + mset pool"
proof (induction hash seed pool pseq rule: shuffle_loop.induct)
  case (1 hash seed pool pseq)
  show ?case
  proof (cases "pool = []")
    case True
    with "1.prems" show ?thesis by simp
  next
    case False
    with "1.prems" obtain seed' pool' pseq'
      where b: "shuffle_body hash (seed, pool, pseq) = Inr (seed', pool', pseq')"
        and l: "shuffle_loop hash seed' pool' pseq' = Inr r"
      by (auto simp: shuffle_loop.simps [of hash seed pool pseq] split: sum.splits)
    from shuffle_body_Inr [OF b False] obtain probe
      where p: "probe < length pool" "pool' = remove_at probe pool" "pseq' = pseq @ [pool ! probe]"
      by blast
    from "1.IH" [OF False b refl refl l] have "mset r = mset pseq' + mset pool'" .
    with p mset_remove_at [OF p(1)] show ?thesis by simp
  qed
qed

lemma shuffled_mset:
  "shuffledServiceRoots this hash = Inr sv \<Longrightarrow> mset sv = mset (Service_roots this)"
  using shuffle_loop_mset [of hash hash "Service_roots this" "[]" sv]
  by (simp add: shuffledServiceRoots_def)

lemma stored_sum_app: "stored_sum (xs @ ys) = stored_sum xs + stored_sum ys"
  by (simp add: stored_sum_def)

lemma stored_sum_mset: "mset xs = mset ys \<Longrightarrow> stored_sum xs = stored_sum ys"
proof -
  assume "mset xs = mset ys"
  then have "sum_mset (image_mset (\<lambda>s. if statusCode s = 200 then sint (replicas_stored s) else 0) (mset xs))
           = sum_mset (image_mset (\<lambda>s. if statusCode s = 200 then sint (replicas_stored s) else 0) (mset ys))"
    by simp
  then show ?thesis
    unfolding stored_sum_def by (simp only: mset_map [symmetric] sum_mset_sum_list)
qed

lemma put_final:
  assumes "shuffledServiceRoots this hash = Inr sv"
  shows "putReplicas_final this hash sched = Inr (put_run this sv hash (put_init this sched))"
    and "put_inv this sv hash (put_run this sv hash (put_init this sched))"
    and "\<exists>r. pc (put_run this sv hash (put_init this sched)) = Finished r"
  using assms put_inv_run [OF put_inv_init] put_run_finished
  by (simp_all add: putReplicas_final_def)


lemma launched:
  assumes "put_inv this sv hash c"
  shows "set (in_flight c) \<subseteq> (\<lambda>h. uploadToKeepServer this h hash) ` set sv"
    and "set (received c) \<subseteq> (\<lambda>h. uploadToKeepServer this h hash) ` set sv"
proof -
  have "s \<in> (\<lambda>h. uploadToKeepServer this h hash) ` set sv"
    if "s \<in># mset (received c) + mset (in_flight c)" for s
  proof -
    have eq: "mset (received c) + mset (in_flight c)
                = mset (map (\<lambda>h. uploadToKeepServer this h hash) (take (next_server c) sv))"
      using assms unfolding put_inv_def by blast
    have "s \<in># mset (map (\<lambda>h. uploadToKeepServer this h hash) (take (next_server c) sv))"
      unfolding eq [symmetric] by (rule that)
    then have "s \<in> (\<lambda>h. uploadToKeepServer this h hash) ` set (take (next_server c) sv)"
      by simp
    then show ?thesis
      using set_take_subset [of "next_server c" sv] by blast
  qed
  then show "set (in_flight c) \<subseteq> (\<lambda>h. uploadToKeepServer this h hash) ` set sv"
    and "set (received c) \<subseteq> (\<lambda>h. uploadToKeepServer this h hash) ` set sv"
    by auto
qed

lemma stored_sum_nonneg:
  "(\<forall>s\<in>set xs. statusCode s = 200 \<longrightarrow> 0 \<le> sint (replicas_stored s)) \<Longrightarrow> 0 \<le> stored_sum xs"
  by (induction xs) (auto simp: stored_sum_def)

lemma put_sum_step:
  assumes inv: "put_inv this sv hash c"
    and sum: "sint (remaining_replicas c) = sint (Want_replicas this) - stored_sum (received c)"
    and nn: "\<forall>h\<in>set sv. statusCode (uploadToKeepServer this h hash) = 200 \<longrightarrow>
               0 \<le> sint (replicas_stored (uploadToKeepServer this h hash))"
  shows "sint (remaining_replicas (put_step this sv hash c))
           = sint (Want_replicas this) - stored_sum (received (put_step this sv hash c))"
proof (cases "pc c")
  case AtReceive
  with inv have ne: "in_flight c \<noteq> []" and pos: "0 < sint (remaining_replicas c)"
    by (simp_all add: put_inv_def)
  define i where "i = (case schedule c of [] \<Rightarrow> 0 | k # _ \<Rightarrow> k) mod length (in_flight c)"
  let ?s = "in_flight c ! i"
  have "i < length (in_flight c)" using ne by (simp add: i_def)
  then have "?s \<in> set (in_flight c)" by simp
  with launched(1) [OF inv] obtain h
    where "h \<in> set sv" "?s = uploadToKeepServer this h hash"
    by blast
  with nn have s: "statusCode ?s = 200 \<longrightarrow> 0 \<le> sint (replicas_stored ?s)"
    by simp
  have sub: "sint (remaining_replicas c - replicas_stored ?s)
               = sint (remaining_replicas c) - sint (replicas_stored ?s)"
    if "statusCode ?s = 200"
  proof (rule sint_sub_no_wrap)
    from that s have "0 \<le> sint (replicas_stored ?s)" by simp
    with pos sint_range [of "remaining_replicas c"] sint_range [of "replicas_stored ?s"]
    show "- (2 ^ 63) \<le> sint (remaining_replicas c) - sint (replicas_stored ?s)"
      and "sint (remaining_replicas c) - sint (replicas_stored ?s) < 2 ^ 63"
      by simp_all
  qed
  from AtReceive ne sum sub show ?thesis
    by (simp add: put_step_def receive_status_def Let_def i_def stored_sum_append)
qed (use sum in \<open>auto simp: put_step_def\<close>)

lemma put_sum_run:
  assumes nn: "\<forall>h\<in>set sv. statusCode (uploadToKeepServer this h hash) = 200 \<longrightarrow>
               0 \<le> sint (replicas_stored (uploadToKeepServer this h hash))"
  shows "put_inv this sv hash c \<Longrightarrow>
         sint (remaining_replicas c) = sint (Want_replicas this) - stored_sum (received c) \<Longrightarrow>
         sint (remaining_replicas (put_run this sv hash c))
           = sint (Want_replicas this) - stored_sum (received (put_run this sv hash c))"
  using nn
proof (induction this sv hash c rule: put_run.induct)
  case (1 this sv hash c)
  show ?case
  proof (cases "pc_rank (pc c) = 0")
    case True
    with "1.prems" show ?thesis by (simp add: put_run_done)
  next
    case False
    from "1.IH" [OF False put_inv_step [OF "1.prems"(1)] put_sum_step [OF "1.prems"] "1.prems"(3)]
      False
    show ?thesis by (simp add: put_run_step)
  qed
qed

lemma put_final_sum:
  assumes sv: "shuffledServiceRoots this hash = Inr sv"
    and nn: "\<forall>h\<in>set (Service_roots this).
               statusCode (uploadToKeepServer this h hash) = 200 \<longrightarrow>
               0 \<le> sint (replicas_stored (uploadToKeepServer this h hash))"
  shows "sint (remaining_replicas (put_run this sv hash (put_init this sched)))
           = sint (Want_replicas this)
             - stored_sum (received (put_run this sv hash (put_init this sched)))"
proof -
  have "set sv = set (Service_roots this)"
    using shuffled_mset [OF sv] by (rule mset_eq_setD)
  with nn have "\<forall>h\<in>set sv. statusCode (uploadToKeepServer this h hash) = 200 \<longrightarrow>
                  0 \<le> sint (replicas_stored (uploadToKeepServer this h hash))"
    by simp
  from put_sum_run [OF this put_inv_init] show ?thesis
    by (simp add: put_init_def stored_sum_def)
qed


text \<open>
  C4, as amended. When no backend that answers 200 reports a negative number of replicas,
  every call that gets past \<open>shuffledServiceRoots\<close> returns, whatever the order in which
  the uploads report. The error is \<^verbatim>\<open>nil\<close> only if the replicas reported stored by the
  successful uploads received reach \<open>Want_replicas\<close>. Otherwise the error is
  \<open>InsufficientReplicasError\<close>, every backend has been tried and has reported, and the
  count returned is the sum of the replicas reported stored by the successful ones, which is
  below \<open>Want_replicas\<close>.
\<close>

theorem putReplicas_result:
  assumes nn: "\<forall>h\<in>set (Service_roots this).
                 statusCode (uploadToKeepServer this h hash) = 200 \<longrightarrow>
                 0 \<le> sint (replicas_stored (uploadToKeepServer this h hash))"
  shows
  "case putReplicas_final this hash sched of
     Inl p \<Rightarrow> shuffledServiceRoots this hash = Inl p \<and> putReplicas this hash sched = Inl p
   | Inr c \<Rightarrow>
       (\<exists>n e. putReplicas this hash sched = Inr (Returned n e) \<and>
          (e = None \<longrightarrow> sint (Want_replicas this) \<le> stored_sum (received c)) \<and>
          (e \<noteq> None \<longrightarrow>
             e = Some InsufficientReplicasError \<and> n = stored_sum (received c) \<and>
             n < sint (Want_replicas this) \<and>
             mset (received c)
               = mset (map (\<lambda>h. uploadToKeepServer this h hash) (Service_roots this))))"
proof (cases "shuffledServiceRoots this hash")
  case (Inl p)
  then show ?thesis by (simp add: putReplicas_final_def putReplicas_def)
next
  case (Inr sv)
  let ?c = "put_run this sv hash (put_init this sched)"
  let ?up = "\<lambda>h. uploadToKeepServer this h hash"
  note f = put_final [OF Inr, of sched]
  note sum = put_final_sum [OF Inr nn, of sched]
  from f(3) obtain r where r: "pc ?c = Finished r" by blast
  have set_sv: "set sv = set (Service_roots this)"
    using shuffled_mset [OF Inr] by (rule mset_eq_setD)
  have ms: "mset (map ?up sv) = mset (map ?up (Service_roots this))"
    using shuffled_mset [OF Inr] by (simp only: mset_map)
  from f(2) r consider
      (ok) "r = Returned (sint (Want_replicas this)) None" "sint (remaining_replicas ?c) \<le> 0"
    | (short) "r = Returned (sint (Want_replicas this - remaining_replicas ?c))
                     (Some InsufficientReplicasError)"
        "0 < sint (remaining_replicas ?c)" "in_flight ?c = []" "next_server ?c = length sv"
    by (auto simp: put_inv_def)
  then show ?thesis
  proof cases
    case ok
    with f(1) r sum show ?thesis
      by (simp add: putReplicas_def)
  next
    case short
    with f(2) have all: "mset (received ?c) = mset (map ?up sv)"
      by (simp add: put_inv_def)
    have "\<forall>s\<in>set (received ?c). statusCode s = 200 \<longrightarrow> 0 \<le> sint (replicas_stored s)"
      using launched(2) [OF f(2)] nn set_sv by auto
    then have "0 \<le> stored_sum (received ?c)" by (rule stored_sum_nonneg)
    with sum short(2) sint_range [of "Want_replicas this"] sint_range [of "remaining_replicas ?c"]
    have "- (2 ^ 63) \<le> sint (Want_replicas this) - sint (remaining_replicas ?c)"
      and "sint (Want_replicas this) - sint (remaining_replicas ?c) < 2 ^ 63"
      by simp_all
    then have "sint (Want_replicas this - remaining_replicas ?c)
                 = sint (Want_replicas this) - sint (remaining_replicas ?c)"
      by (rule sint_sub_no_wrap)
    with sum have n: "sint (Want_replicas this - remaining_replicas ?c) = stored_sum (received ?c)"
      by simp
    from short f(1) r ms all n sum show ?thesis
      by (simp add: putReplicas_def)
  qed
qed

theorem putReplicas_result_witness:
  "putReplicas one_healthy ''37b51d194a7513e45b56f6524f2d51f2'' [1, 0]
     = Inr (Returned 1 (Some InsufficientReplicasError)) \<and>
   map_sum id (\<lambda>c. stored_sum (received c))
     (putReplicas_final one_healthy ''37b51d194a7513e45b56f6524f2d51f2'' [1, 0]) = Inr 1 \<and>
   sint (Want_replicas one_healthy) = 2"
  using putReplicas_result [of one_healthy "''37b51d194a7513e45b56f6524f2d51f2''" "[1, 0]"]
  by (simp add: put_eval shuffle_eval example_client_def one_healthy_def)

text \<open>
  C4 as stated fails when a backend reports a negative count that makes the subtraction
  \<^verbatim>\<open>remaining_replicas -= status.replicas_stored\<close> wrap around: with
  \<open>Want_replicas = 2\<close> and a first status that reports \<open>-2^63\<close> replicas, the deficit
  becomes \<open>2 - 2^63\<close>, the loop ends, and the call returns 2 and \<^verbatim>\<open>nil\<close> while the
  replicas reported stored are \<open>-2^63\<close>.
\<close>

theorem putReplicas_wrap_counterexample:
  "putReplicas wrapping_client ''37b51d194a7513e45b56f6524f2d51f2'' [] = Inr (Returned 2 None) \<and>
   map_sum id (\<lambda>c. stored_sum (received c))
     (putReplicas_final wrapping_client ''37b51d194a7513e45b56f6524f2d51f2'' [])
     = Inr (- 9223372036854775808) \<and>
   sint (Want_replicas wrapping_client) = 2"
  by (simp add: put_eval shuffle_eval example_client_def wrapping_client_def)

text \<open>
  C10. When the error is \<^verbatim>\<open>nil\<close> the count returned is \<open>Want_replicas\<close>, whatever the
  backends report: in the witness each backend reports 3 replicas for a request of 2, and
  the call returns 2.
\<close>

theorem putReplicas_nil_returns_want:
  assumes "putReplicas this hash sched = Inr (Returned n None)"
  shows "n = sint (Want_replicas this)"
proof (cases "shuffledServiceRoots this hash")
  case (Inl p)
  with assms show ?thesis by (simp add: putReplicas_final_def putReplicas_def)
next
  case (Inr sv)
  let ?c = "put_run this sv hash (put_init this sched)"
  note f = put_final [OF Inr, of sched]
  from f(3) obtain r where r: "pc ?c = Finished r" by blast
  with assms f(1) have "r = Returned n None" by (simp add: putReplicas_def)
  with f(2) r show ?thesis by (auto simp: put_inv_def)
qed

theorem putReplicas_nil_returns_want_witness:
  "putReplicas (example_client\<lparr>Client := (\<lambda>u. Response 200 (Some 3))\<rparr>)
     ''37b51d194a7513e45b56f6524f2d51f2'' [] = Inr (Returned 2 None) \<and>
   sint (Want_replicas (example_client\<lparr>Client := (\<lambda>u. Response 200 (Some 3))\<rparr>)) = 2 \<and>
   map_sum id (\<lambda>c. stored_sum (received c))
     (putReplicas_final (example_client\<lparr>Client := (\<lambda>u. Response 200 (Some 3))\<rparr>)
        ''37b51d194a7513e45b56f6524f2d51f2'' []) = Inr 3"
  using putReplicas_nil_returns_want
    [of "example_client\<lparr>Client := (\<lambda>u. Response 200 (Some 3))\<rparr>"
        "''37b51d194a7513e45b56f6524f2d51f2''" "[]" 2]
  by (simp add: put_eval shuffle_eval example_client_def)


lemma stored_sum_healthy:
  "(\<forall>s\<in>set xs. healthy s \<or> failing s) \<Longrightarrow>
   stored_sum xs = int (length (filter healthy xs))"
  by (induction xs) (auto simp: stored_sum_def healthy_def failing_def)

lemma stored_sum_healthy_nonneg:
  "(\<forall>s\<in>set xs. healthy s \<or> failing s) \<Longrightarrow> 0 \<le> stored_sum xs"
  by (simp add: stored_sum_healthy)

text \<open>
  C5. With a hash of at least 8 digits and backends that are each healthy or failing, let
  \<open>R'\<close> be the number of healthy ones. If \<open>R'\<close> is at least \<open>Want_replicas\<close> the call
  returns \<open>Want_replicas\<close> and no error; otherwise it returns \<open>R'\<close> and
  \<open>InsufficientReplicasError\<close>. This holds for every order of arrival of the statuses.
\<close>

theorem placement_sufficiency:
  assumes len: "8 \<le> length hash"
    and good: "\<forall>h\<in>set (Service_roots this).
                 healthy (uploadToKeepServer this h hash) \<or> failing (uploadToKeepServer this h hash)"
  shows "putReplicas this hash sched =
           Inr (if sint (Want_replicas this)
                   \<le> int (length (filter (\<lambda>h. healthy (uploadToKeepServer this h hash))
                                    (Service_roots this)))
                then Returned (sint (Want_replicas this)) None
                else Returned (int (length (filter (\<lambda>h. healthy (uploadToKeepServer this h hash))
                                              (Service_roots this))))
                       (Some InsufficientReplicasError))"
proof -
  let ?up = "\<lambda>h. uploadToKeepServer this h hash"
  let ?R = "int (length (filter (\<lambda>h. healthy (?up h)) (Service_roots this)))"
  let ?W = "sint (Want_replicas this)"
  from shuffle_loop_perm [OF len, of hash "Service_roots this" "[]"] obtain sv
    where sv: "shuffledServiceRoots this hash = Inr sv"
    by (auto simp: shuffledServiceRoots_def)
  have ms: "mset sv = mset (Service_roots this)" by (rule shuffled_mset [OF sv])
  then have set_sv: "set sv = set (Service_roots this)" by (rule mset_eq_setD)
  let ?c = "put_run this sv hash (put_init this sched)"
  let ?n = "next_server ?c"
  note f = put_final [OF sv, of sched]
  from f(3) obtain r where r: "pc ?c = Finished r" by blast
  have nn: "\<forall>h\<in>set (Service_roots this). statusCode (?up h) = 200 \<longrightarrow>
              0 \<le> sint (replicas_stored (?up h))"
    using good by (auto simp: healthy_def failing_def)
  have rem: "sint (remaining_replicas ?c) = ?W - stored_sum (received ?c)"
    by (rule put_final_sum [OF sv nn])
  have good_sv: "\<forall>s\<in>set (map ?up sv). healthy s \<or> failing s"
    using good set_sv by auto
  have "stored_sum (map ?up sv) = stored_sum (map ?up (Service_roots this))"
    using ms by (intro stored_sum_mset) (simp only: mset_map)
  also have "\<dots> = int (length (filter healthy (map ?up (Service_roots this))))"
    using good by (intro stored_sum_healthy) auto
  also have "\<dots> = ?R"
    by (simp add: filter_map comp_def)
  finally have total: "stored_sum (map ?up sv) = ?R" .
  have "map ?up sv = map ?up (take ?n sv) @ map ?up (drop ?n sv)"
    by (simp only: map_append [symmetric] append_take_drop_id)
  then have split: "stored_sum (map ?up sv)
      = stored_sum (map ?up (take ?n sv)) + stored_sum (map ?up (drop ?n sv))"
    by (simp only: stored_sum_app)
  have "mset (received ?c @ in_flight ?c) = mset (map ?up (take ?n sv))"
    using f(2) by (simp add: put_inv_def)
  then have "stored_sum (received ?c @ in_flight ?c) = stored_sum (map ?up (take ?n sv))"
    by (rule stored_sum_mset)
  then have launched_sum: "stored_sum (received ?c) + stored_sum (in_flight ?c)
      = stored_sum (map ?up (take ?n sv))"
    by (simp only: stored_sum_app)
  have "\<forall>s\<in>set (in_flight ?c). healthy s \<or> failing s"
    using launched(1) [OF f(2)] good_sv by auto
  then have fl: "0 \<le> stored_sum (in_flight ?c)" by (rule stored_sum_healthy_nonneg)
  have "\<forall>s\<in>set (map ?up (drop ?n sv)). healthy s \<or> failing s"
    using good_sv set_drop_subset [of ?n sv] by auto
  then have rest: "0 \<le> stored_sum (map ?up (drop ?n sv))" by (rule stored_sum_healthy_nonneg)
  have res: "putReplicas this hash sched = Inr r"
    using f(1) r by (simp add: putReplicas_def)
  from f(2) r consider
      (ok) "r = Returned ?W None" "sint (remaining_replicas ?c) \<le> 0"
    | (short) "r = Returned (sint (Want_replicas this - remaining_replicas ?c))
                     (Some InsufficientReplicasError)"
        "0 < sint (remaining_replicas ?c)" "in_flight ?c = []" "?n = length sv"
    by (auto simp: put_inv_def)
  then show ?thesis
  proof cases
    case ok
    with rem total split launched_sum fl rest have "?W \<le> ?R" by linarith
    with ok res show ?thesis by simp
  next
    case short
    then have "stored_sum (in_flight ?c) = 0" "stored_sum (map ?up (drop ?n sv)) = 0"
      by (simp_all add: stored_sum_def)
    with rem total split launched_sum short
    have d: "?W - sint (remaining_replicas ?c) = ?R" and lt: "\<not> ?W \<le> ?R"
      by linarith+
    with short(2) sint_range [of "Want_replicas this"] sint_range [of "remaining_replicas ?c"]
    have "- (2 ^ 63) \<le> ?W - sint (remaining_replicas ?c)"
      and "?W - sint (remaining_replicas ?c) < 2 ^ 63"
      by simp_all
    then have "sint (Want_replicas this - remaining_replicas ?c)
                 = ?W - sint (remaining_replicas ?c)"
      by (rule sint_sub_no_wrap)
    with d lt short res show ?thesis by simp
  qed
qed

theorem placement_sufficiency_witness:
  "putReplicas one_healthy ''37b51d194a7513e45b56f6524f2d51f2'' [0, 1]
     = Inr (Returned 1 (Some InsufficientReplicasError)) \<and>
   length (filter (\<lambda>h. healthy (uploadToKeepServer one_healthy h ''37b51d194a7513e45b56f6524f2d51f2''))
             (Service_roots one_healthy)) = 1 \<and>
   sint (Want_replicas one_healthy) = 2"
  using placement_sufficiency [of "''37b51d194a7513e45b56f6524f2d51f2''" one_healthy "[0, 1]"]
  by (simp add: put_eval shuffle_eval example_client_def one_healthy_def healthy_def failing_def)

lemma put_bound_step:
  assumes inv: "put_inv this sv hash c"
    and le: "int (length (in_flight c)) \<le> sint (remaining_replicas c)"
    and one: "\<forall>h\<in>set sv. statusCode (uploadToKeepServer this h hash) = 200 \<longrightarrow>
                0 \<le> sint (replicas_stored (uploadToKeepServer this h hash)) \<and>
                sint (replicas_stored (uploadToKeepServer this h hash)) \<le> 1"
  shows "int (length (in_flight (put_step this sv hash c)))
           \<le> sint (remaining_replicas (put_step this sv hash c))"
proof (cases "pc c")
  case AtInner
  with inv have "sint (active c) = int (length (in_flight c))" by (simp add: put_inv_def)
  with AtInner le show ?thesis by (simp add: put_step_def)
next
  case AtReceive
  with inv have ne: "in_flight c \<noteq> []" and pos: "0 < sint (remaining_replicas c)"
    by (simp_all add: put_inv_def)
  define i where "i = (case schedule c of [] \<Rightarrow> 0 | k # _ \<Rightarrow> k) mod length (in_flight c)"
  let ?s = "in_flight c ! i"
  have i: "i < length (in_flight c)" using ne by (simp add: i_def)
  then have "?s \<in> set (in_flight c)" by simp
  with launched(1) [OF inv] obtain h
    where "h \<in> set sv" "?s = uploadToKeepServer this h hash"
    by blast
  with one have s: "statusCode ?s = 200 \<longrightarrow>
      0 \<le> sint (replicas_stored ?s) \<and> sint (replicas_stored ?s) \<le> 1"
    by simp
  have sub: "sint (remaining_replicas c - replicas_stored ?s)
               = sint (remaining_replicas c) - sint (replicas_stored ?s)"
    if "statusCode ?s = 200"
  proof (rule sint_sub_no_wrap)
    from that s have "0 \<le> sint (replicas_stored ?s)" by simp
    with pos sint_range [of "remaining_replicas c"] sint_range [of "replicas_stored ?s"]
    show "- (2 ^ 63) \<le> sint (remaining_replicas c) - sint (replicas_stored ?s)"
      and "sint (remaining_replicas c) - sint (replicas_stored ?s) < 2 ^ 63"
      by simp_all
  qed
  have l: "int (length (remove_at i (in_flight c))) = int (length (in_flight c)) - 1"
    using i by (simp add: length_remove_at of_nat_diff)
  from AtReceive ne le s sub l show ?thesis
    by (auto simp: put_step_def receive_status_def Let_def i_def)
qed (use le in \<open>auto simp: put_step_def\<close>)

lemma put_bound_steps:
  assumes one: "\<forall>h\<in>set sv. statusCode (uploadToKeepServer this h hash) = 200 \<longrightarrow>
                0 \<le> sint (replicas_stored (uploadToKeepServer this h hash)) \<and>
                sint (replicas_stored (uploadToKeepServer this h hash)) \<le> 1"
  shows "put_inv this sv hash c \<Longrightarrow>
         int (length (in_flight c)) \<le> sint (remaining_replicas c) \<Longrightarrow>
         int (length (in_flight (put_steps n this sv hash c)))
           \<le> sint (remaining_replicas (put_steps n this sv hash c))"
proof (induction n arbitrary: c)
  case 0
  then show ?case by simp
next
  case (Suc n)
  from Suc.IH [OF put_inv_step [OF Suc.prems(1)] put_bound_step [OF Suc.prems one]]
  show ?case by simp
qed

lemma launch_only_at_inner:
  assumes "next_server (put_step this sv hash c) \<noteq> next_server c"
  shows "pc c = AtInner \<and> sint (active c) < sint (remaining_replicas c) \<and>
         next_server c < length sv \<and>
         active (put_step this sv hash c) = active c + 1 \<and>
         remaining_replicas (put_step this sv hash c) = remaining_replicas c"
proof (cases "pc c")
  case AtReceive
  with assms show ?thesis
    by (simp add: put_step_def receive_status_def Let_def split: if_splits)
qed (use assms in \<open>auto simp: put_step_def split: if_splits\<close>)

text \<open>
  C6, as amended. In every configuration a run goes through, \<open>active\<close> is the number of
  uploads in flight, and one more between the update of \<open>remaining_replicas\<close> and
  \<^verbatim>\<open>active -= 1\<close>. An upload is started (the only step that changes \<open>next_server\<close>)
  only when the deficit is positive, \<open>active\<close> is below it and a server is left, and
  right after the start \<open>active\<close> is at most the deficit; so nothing is started once the
  deficit is zero or the servers are used up. When \<open>Want_replicas\<close> is not negative and
  every backend that answers 200 reports zero or one replica, the number of uploads in flight
  is at most the deficit in every configuration, and so is \<open>active\<close> except between the
  update of \<open>remaining_replicas\<close> and \<^verbatim>\<open>active -= 1\<close>.
\<close>

theorem launch_gate:
  assumes sv: "shuffledServiceRoots this hash = Inr sv"
    and c: "c = put_steps n this sv hash (put_init this sched)"
  shows "sint (active c) = int (length (in_flight c)) + (if pc c = AtDecrement then 1 else 0) \<and>
         (next_server (put_step this sv hash c) \<noteq> next_server c \<longrightarrow>
            0 < sint (remaining_replicas c) \<and>
            sint (active c) < sint (remaining_replicas c) \<and>
            next_server c < length sv \<and>
            sint (active (put_step this sv hash c))
              \<le> sint (remaining_replicas (put_step this sv hash c))) \<and>
         (0 \<le> sint (Want_replicas this) \<and>
          (\<forall>h\<in>set (Service_roots this).
             statusCode (uploadToKeepServer this h hash) = 200 \<longrightarrow>
             0 \<le> sint (replicas_stored (uploadToKeepServer this h hash)) \<and>
             sint (replicas_stored (uploadToKeepServer this h hash)) \<le> 1) \<longrightarrow>
            int (length (in_flight c)) \<le> sint (remaining_replicas c) \<and>
            (pc c \<noteq> AtDecrement \<longrightarrow> sint (active c) \<le> sint (remaining_replicas c)))"
proof -
  have inv: "put_inv this sv hash c"
    unfolding c by (rule put_inv_steps [OF put_inv_init])
  have set_sv: "set sv = set (Service_roots this)"
    using shuffled_mset [OF sv] by (rule mset_eq_setD)
  have a: "sint (active c) = int (length (in_flight c)) + (if pc c = AtDecrement then 1 else 0)"
    using inv by (simp add: put_inv_def)
  have b: "0 < sint (remaining_replicas c) \<and>
           sint (active c) < sint (remaining_replicas c) \<and>
           next_server c < length sv \<and>
           sint (active (put_step this sv hash c))
             \<le> sint (remaining_replicas (put_step this sv hash c))"
    if "next_server (put_step this sv hash c) \<noteq> next_server c"
  proof -
    note l = launch_only_at_inner [OF that]
    from l have lt: "sint (active c) < sint (remaining_replicas c)" by simp
    from l inv have "0 < sint (remaining_replicas c)" by (simp add: put_inv_def)
    with l sint_succ [OF lt] show ?thesis by simp
  qed
  have d: "int (length (in_flight c)) \<le> sint (remaining_replicas c)"
    if "0 \<le> sint (Want_replicas this)"
      and "\<forall>h\<in>set (Service_roots this).
             statusCode (uploadToKeepServer this h hash) = 200 \<longrightarrow>
             0 \<le> sint (replicas_stored (uploadToKeepServer this h hash)) \<and>
             sint (replicas_stored (uploadToKeepServer this h hash)) \<le> 1"
    unfolding c
    using that set_sv
    by (intro put_bound_steps put_inv_init) (simp_all add: put_init_def)
  from a b d show ?thesis by auto
qed

theorem launch_gate_witness:
  "shuffledServiceRoots one_healthy ''37b51d194a7513e45b56f6524f2d51f2''
     = Inr [''http://keep2:25107'', ''http://keep0:25107'', ''http://keep1:25107''] \<and>
   next_server (put_steps 2 one_healthy
       [''http://keep2:25107'', ''http://keep0:25107'', ''http://keep1:25107'']
       ''37b51d194a7513e45b56f6524f2d51f2'' (put_init one_healthy [])) = 1 \<and>
   next_server (put_steps 1 one_healthy
       [''http://keep2:25107'', ''http://keep0:25107'', ''http://keep1:25107'']
       ''37b51d194a7513e45b56f6524f2d51f2'' (put_init one_healthy [])) = 0 \<and>
   sint (active (put_steps 1 one_healthy
       [''http://keep2:25107'', ''http://keep0:25107'', ''http://keep1:25107'']
       ''37b51d194a7513e45b56f6524f2d51f2'' (put_init one_healthy []))) = 0 \<and>
   sint (remaining_replicas (put_steps 1 one_healthy
       [''http://keep2:25107'', ''http://keep0:25107'', ''http://keep1:25107'']
       ''37b51d194a7513e45b56f6524f2d51f2'' (put_init one_healthy []))) = 2"
  using launch_gate [of one_healthy "''37b51d194a7513e45b56f6524f2d51f2''"
      "[''http://keep2:25107'', ''http://keep0:25107'', ''http://keep1:25107'']"
      "put_steps 1 one_healthy
         [''http://keep2:25107'', ''http://keep0:25107'', ''http://keep1:25107'']
         ''37b51d194a7513e45b56f6524f2d51f2'' (put_init one_healthy [])" 1 "[]"]
  by (simp add: put_steps_unfold put_eval shuffle_eval example_client_def one_healthy_def)

text \<open>
  C6 as stated fails when a backend reports more than one replica: with
  \<open>Want_replicas = 3\<close> and backends that each report 2, three uploads are started, and
  after the first status the outer loop is entered again with a deficit of 1 and 2 uploads
  still in flight.
\<close>

theorem active_exceeds_deficit_counterexample:
  "shuffledServiceRoots proxy_client ''37b51d194a7513e45b56f6524f2d51f2''
     = Inr [''http://keep2:25107'', ''http://keep0:25107'', ''http://keep1:25107''] \<and>
   pc (put_steps 7 proxy_client
       [''http://keep2:25107'', ''http://keep0:25107'', ''http://keep1:25107'']
       ''37b51d194a7513e45b56f6524f2d51f2'' (put_init proxy_client [])) = AtOuter \<and>
   sint (active (put_steps 7 proxy_client
       [''http://keep2:25107'', ''http://keep0:25107'', ''http://keep1:25107'']
       ''37b51d194a7513e45b56f6524f2d51f2'' (put_init proxy_client []))) = 2 \<and>
   sint (remaining_replicas (put_steps 7 proxy_client
       [''http://keep2:25107'', ''http://keep0:25107'', ''http://keep1:25107'']
       ''37b51d194a7513e45b56f6524f2d51f2'' (put_init proxy_client []))) = 1 \<and>
   length (in_flight (put_steps 7 proxy_client
       [''http://keep2:25107'', ''http://keep0:25107'', ''http://keep1:25107'']
       ''37b51d194a7513e45b56f6524f2d51f2'' (put_init proxy_client []))) = 2"
  by (simp add: put_steps_unfold put_eval shuffle_eval example_client_def proxy_client_def)

subsection \<open>Properties of the volume lifecycle and of the block cache\<close>




text \<open>
  C8. When the local read fails (file absent, too short, or a read error), \<open>ReadAt\<close>
  returns what the gateway gives: the bytes of the range asked for out of the block fetched,
  or the gateway's error. Every error \<open>ReadAt\<close> returns is an error of the gateway.
\<close>

theorem ReadAt_local_failure:
  "(local_read (files cache locator) io_fault n offset = None \<longrightarrow>
      (case KeepGateway cache locator of
         Inl e \<Rightarrow> fst (ReadAt cache io_fault locator n offset) = Inl (RemoteError e)
       | Inr block \<Rightarrow>
           fst (ReadAt cache io_fault locator n offset) = Inr (take n (drop offset block)))) \<and>
   (\<forall>err. fst (ReadAt cache io_fault locator n offset) = Inl err \<longrightarrow>
      (\<exists>e. KeepGateway cache locator = Inl e \<and> err = RemoteError e))"
  by (auto simp: ReadAt_def split: option.splits sum.splits)

theorem ReadAt_local_failure_witness:
  "local_read (files mangled_cache ''acbd18db4cc2f85cedef654fccc4a4d8+3'') False 2 1 = None \<and>
   fst (ReadAt mangled_cache False ''acbd18db4cc2f85cedef654fccc4a4d8+3'' 2 1) = Inr ''oo'' \<and>
   fst (ReadAt mangled_cache True ''0'' 2 1) = Inl (RemoteError ''block not found'')"
  using ReadAt_local_failure [of mangled_cache "''acbd18db4cc2f85cedef654fccc4a4d8+3''" False 2 1]
  by (simp add: ReadAt_def local_read_def mangled_cache_def)

end
